theory Spec2Isabelle
  imports Complex_Main "HOL-Library.Multiset"
begin

section \<open>Seed selection strategies of pandemaniac.py\<close>

text \<open>
  The program picks \<open>num_seeds\<close> seed nodes of an undirected graph for each of
  \<open>num_iterations\<close> rounds, by one of nine strategies. Every strategy function of
  \<open>src/pandemaniac.py\<close> is embedded below under its own name. The graph library
  (networkx), \<open>heapq.nlargest\<close> and \<open>numpy.random.choice\<close> are not part of the
  repository: the two simple routines every strategy is built from
  (\<open>degree_centrality\<close>, \<open>nlargest\<close>) are modelled, the other library routines
  are parameters of the strategy that calls them.

  \<open>num_seeds\<close> and \<open>num_iterations\<close> are counts and are natural numbers here.
\<close>

subsection \<open>Errors\<close>

text \<open>
  The exceptions a strategy can end with: a failed \<open>assert\<close>, an index past the end of
  a list, and the \<open>ValueError\<close> of \<open>numpy.random.choice\<close>.
\<close>

datatype error = AssertionError | IndexError | ValueError

subsection \<open>Graphs\<close>

text \<open>
  A networkx \<open>Graph\<close> keeps a dictionary from each node to its neighbours. It is an
  association list here, in the dictionary's iteration order: \<open>len(G)\<close> is
  \<open>length G\<close> and \<open>G.nodes()\<close> is \<open>nodes G\<close>.
\<close>

type_synonym 'a graph = "('a \<times> 'a list) list"

definition nodes :: "'a graph \<Rightarrow> 'a list" where
  "nodes G = map fst G"

definition adj :: "'a graph \<Rightarrow> 'a \<Rightarrow> 'a list" where
  "adj G n = (case map_of G n of None \<Rightarrow> [] | Some nb \<Rightarrow> nb)"

text \<open>
  What the library guarantees of every graph it builds: each node is a key once, a
  neighbour is listed once, every neighbour is a node, and adjacency is symmetric.
\<close>

definition is_graph :: "'a graph \<Rightarrow> bool" where
  "is_graph G =
     (distinct (nodes G) \<and>
      list_all (\<lambda>(n, nb). distinct nb \<and>
                 list_all (\<lambda>m. m \<in> set (nodes G) \<and> n \<in> set (adj G m)) nb) G)"

text \<open>\<open>G.degree()\<close>: the number of neighbours, a self-loop counted twice.\<close>

definition degree :: "'a \<Rightarrow> 'a list \<Rightarrow> nat" where
  "degree n nb = length nb + (if n \<in> set nb then 1 else 0)"

text \<open>
  Modelled from the spec: \<open>networkx.degree_centrality\<close>, a library routine the
  repository calls and does not contain. "Degree centrality (fraction of all other nodes
  a node is adjacent to)": the degree times \<open>1 / (len(G) - 1)\<close>, one entry per node in
  the order of the graph's nodes; a graph of at most one node gives every node the score
  1. The library computes in floating point; exact rationals order the scores the same
  way, and only their order is used.
\<close>

definition degree_centrality :: "'a graph \<Rightarrow> ('a \<times> rat) list" where
  "degree_centrality G =
     (if length G \<le> 1 then map (\<lambda>(n, nb). (n, 1)) G
      else (let s = 1 / (of_nat (length G) - 1)
            in map (\<lambda>(n, nb). (n, of_nat (degree n nb) * s)) G))"

text \<open>
  \<open>subgraph = G.copy(); subgraph.remove_nodes_from(nodes_to_remove)\<close>: the removed
  nodes disappear as keys and from every neighbour list.
\<close>

definition remove_nodes_from :: "'a graph \<Rightarrow> 'a set \<Rightarrow> 'a graph" where
  "remove_nodes_from G R =
     map (\<lambda>(n, nb). (n, filter (\<lambda>m. m \<notin> R) nb)) (filter (\<lambda>(n, nb). n \<notin> R) G)"

subsection \<open>Top-k selection\<close>

text \<open>
  Modelled from the spec: \<open>heapq.nlargest(n, items, key=operator.itemgetter(1))\<close>, a
  library routine. It "selects the k highest-scoring nodes", with the tie-break "stable
  by the underlying iteration order of the score computation": the first \<open>n\<close> items
  of the stable sort by descending score (\<open>sorted(items, key=key, reverse=True)[:n]\<close>).
  \<open>insert_desc\<close> puts an item before the first item whose score is not greater, so an
  item that came earlier stays ahead of a later one of the same score.
\<close>

fun insert_desc :: "'a \<times> ('s::linorder) \<Rightarrow> ('a \<times> 's) list \<Rightarrow> ('a \<times> 's) list" where
  "insert_desc x [] = [x]"
| "insert_desc x (y # ys) = (if snd y \<le> snd x then x # y # ys else y # insert_desc x ys)"

definition sorted_reverse :: "('a \<times> ('s::linorder)) list \<Rightarrow> ('a \<times> 's) list" where
  "sorted_reverse items = foldr insert_desc items []"

definition nlargest :: "nat \<Rightarrow> ('a \<times> ('s::linorder)) list \<Rightarrow> ('a \<times> 's) list" where
  "nlargest n items = take n (sorted_reverse items)"

subsection \<open>Ranking strategies\<close>

text \<open>
  \<open>node_keys * num_iterations\<close>, Python's list repetition.
\<close>

definition repeat :: "'a list \<Rightarrow> nat \<Rightarrow> 'a list" where
  "repeat node_keys num_iterations = concat (replicate num_iterations node_keys)"

definition degree_centrality_strategy :: "'a graph \<Rightarrow> nat \<Rightarrow> nat \<Rightarrow> 'a list" where
  "degree_centrality_strategy G num_iterations num_seeds =
     (let centralities_dict = degree_centrality G;
          sorted_centralities = nlargest num_seeds centralities_dict;
          node_keys = map fst sorted_centralities
      in repeat node_keys num_iterations)"

text \<open>
  The four other ranking strategies differ from the degree strategy only in the library
  routine that scores the nodes (\<open>nx.clustering\<close>, \<open>nx.eigenvector_centrality\<close>,
  \<open>nx.katz_centrality\<close>, \<open>nx.betweenness_centrality\<close>). The routine is the first
  argument; it returns the score dictionary in its iteration order.
\<close>

definition clustering_coefficient_strategy ::
  "('a graph \<Rightarrow> ('a \<times> ('s::linorder)) list) \<Rightarrow> 'a graph \<Rightarrow> nat \<Rightarrow> nat \<Rightarrow> 'a list" where
  "clustering_coefficient_strategy clustering G num_iterations num_seeds =
     (let clustering_dict = clustering G;
          sorted_clustering_nodes = nlargest num_seeds clustering_dict;
          node_keys = map fst sorted_clustering_nodes
      in repeat node_keys num_iterations)"

definition eigenvector_centrality_strategy ::
  "('a graph \<Rightarrow> ('a \<times> ('s::linorder)) list) \<Rightarrow> 'a graph \<Rightarrow> nat \<Rightarrow> nat \<Rightarrow> 'a list" where
  "eigenvector_centrality_strategy eigenvector_centrality G num_iterations num_seeds =
     (let centralities_dict = eigenvector_centrality G;
          sorted_centralities = nlargest num_seeds centralities_dict;
          node_keys = map fst sorted_centralities
      in repeat node_keys num_iterations)"

definition katz_centrality_strategy ::
  "('a graph \<Rightarrow> ('a \<times> ('s::linorder)) list) \<Rightarrow> 'a graph \<Rightarrow> nat \<Rightarrow> nat \<Rightarrow> 'a list" where
  "katz_centrality_strategy katz_centrality G num_iterations num_seeds =
     (let centralities_dict = katz_centrality G;
          sorted_centralities = nlargest num_seeds centralities_dict;
          node_keys = map fst sorted_centralities
      in repeat node_keys num_iterations)"

definition betweenness_centrality_strategy ::
  "('a graph \<Rightarrow> ('a \<times> ('s::linorder)) list) \<Rightarrow> 'a graph \<Rightarrow> nat \<Rightarrow> nat \<Rightarrow> 'a list" where
  "betweenness_centrality_strategy betweenness_centrality G num_iterations num_seeds =
     (let centralities_dict = betweenness_centrality G;
          sorted_centralities = nlargest num_seeds centralities_dict;
          node_keys = map fst sorted_centralities
      in repeat node_keys num_iterations)"

text \<open>
  What a score routine returns for a graph: a dictionary with one entry per node.
\<close>

definition score_map :: "'a graph \<Rightarrow> ('a \<times> 's) list \<Rightarrow> bool" where
  "score_map G scores = (distinct (map fst scores) \<and> set (map fst scores) = set (nodes G))"

subsection \<open>Extraction strategies\<close>

text \<open>
  The padding loop shared by the three extraction strategies:
  \<^verbatim>\<open>
    i = 0
    while (len(node_keys) != num_seeds):
        if nodes_top_degrees[i] not in node_keys:
            node_keys.append(nodes_top_degrees[i])
        i += 1
  \<close>
  The second argument is \<open>nodes_top_degrees[i:]\<close>, the part of the list not read yet;
  reading past its end is Python's \<open>IndexError\<close>.
\<close>

fun padding_loop :: "'a list \<Rightarrow> 'a list \<Rightarrow> nat \<Rightarrow> error + 'a list" where
  "padding_loop node_keys [] num_seeds =
     (if length node_keys \<noteq> num_seeds then Inl IndexError else Inr node_keys)"
| "padding_loop node_keys (x # rest) num_seeds =
     (if length node_keys \<noteq> num_seeds
      then padding_loop (if x \<notin> set node_keys then node_keys @ [x] else node_keys) rest num_seeds
      else Inr node_keys)"

text \<open>
  The end of the three strategies: the padding loop over the top \<open>num_seeds\<close> nodes of
  the whole graph by degree, \<open>assert(len(node_keys) == num_seeds)\<close>, and the repetition.
\<close>

definition pad_and_repeat :: "'a graph \<Rightarrow> 'a list \<Rightarrow> nat \<Rightarrow> nat \<Rightarrow> error + 'a list" where
  "pad_and_repeat G node_keys num_iterations num_seeds =
     (let nodes_top_degrees = degree_centrality_strategy G 1 num_seeds
      in case padding_loop node_keys nodes_top_degrees num_seeds of
           Inl e \<Rightarrow> Inl e
         | Inr padded \<Rightarrow>
             if length padded = num_seeds then Inr (repeat padded num_iterations)
             else Inl AssertionError)"

text \<open>
  \<open>node_keys\<close> of \<open>vertex_cover_strategy\<close> and \<open>dominating_set_strategy\<close> before
  the padding: the top nodes by degree centrality of the graph left after removing every
  node outside the extracted set. The extracted set is \<open>vc_nodes\<close> or \<open>ds_nodes\<close>.
\<close>

definition subset_node_keys :: "'a graph \<Rightarrow> 'a set \<Rightarrow> nat \<Rightarrow> 'a list" where
  "subset_node_keys G vc_nodes num_seeds =
     (let nodes_to_remove = set (nodes G) - vc_nodes;
          subgraph = remove_nodes_from G nodes_to_remove;
          number_of_nodes = (if card vc_nodes < num_seeds then card vc_nodes else num_seeds);
          centralities_dict = degree_centrality subgraph;
          sorted_centralities = nlargest number_of_nodes centralities_dict
      in map fst sorted_centralities)"

text \<open>
  The first argument is the library's \<open>min_weighted_vertex_cover\<close>, which returns a
  set of nodes.
\<close>

definition vertex_cover_strategy ::
  "('a graph \<Rightarrow> 'a set) \<Rightarrow> 'a graph \<Rightarrow> nat \<Rightarrow> nat \<Rightarrow> error + 'a list" where
  "vertex_cover_strategy min_weighted_vertex_cover G num_iterations num_seeds =
     (let vc_nodes = min_weighted_vertex_cover G;
          node_keys = subset_node_keys G vc_nodes num_seeds
      in pad_and_repeat G node_keys num_iterations num_seeds)"

text \<open>
  The first argument is the library's \<open>nx.dominating_set\<close>. After the removal the
  strategy has \<open>assert(len(G.nodes()) > len(subgraph.nodes()))\<close>.
\<close>

definition dominating_set_strategy ::
  "('a graph \<Rightarrow> 'a set) \<Rightarrow> 'a graph \<Rightarrow> nat \<Rightarrow> nat \<Rightarrow> error + 'a list" where
  "dominating_set_strategy dominating_set G num_iterations num_seeds =
     (let ds_nodes = dominating_set G;
          nodes_to_remove = set (nodes G) - ds_nodes;
          subgraph = remove_nodes_from G nodes_to_remove
      in if \<not> length (nodes G) > length (nodes subgraph) then Inl AssertionError
         else let node_keys = subset_node_keys G ds_nodes num_seeds
              in pad_and_repeat G node_keys num_iterations num_seeds)"

text \<open>
  \<open>node_keys\<close> of \<open>mst_strategy\<close> before the padding: the top nodes by degree
  centrality of the graph \<open>mst\<close> that \<open>nx.minimum_spanning_tree(G)\<close> returned.
\<close>

definition mst_node_keys :: "'a graph \<Rightarrow> nat \<Rightarrow> 'a list" where
  "mst_node_keys mst num_seeds =
     (let number_of_nodes = (if length mst < num_seeds then length mst else num_seeds);
          centralities_dict = degree_centrality mst;
          sorted_centralities = nlargest number_of_nodes centralities_dict
      in map fst sorted_centralities)"

text \<open>The first argument is the library's \<open>nx.minimum_spanning_tree\<close>.\<close>

definition mst_strategy ::
  "('a graph \<Rightarrow> 'a graph) \<Rightarrow> 'a graph \<Rightarrow> nat \<Rightarrow> nat \<Rightarrow> error + 'a list" where
  "mst_strategy minimum_spanning_tree G num_iterations num_seeds =
     (let mst = minimum_spanning_tree G;
          node_keys = mst_node_keys mst num_seeds
      in pad_and_repeat G node_keys num_iterations num_seeds)"

subsection \<open>What the extraction routines return\<close>

text \<open>
  The spec's words for a dominating set: "a node subset such that every node outside it
  is adjacent to at least one member".
\<close>

definition is_dominating_set :: "'a graph \<Rightarrow> 'a set \<Rightarrow> bool" where
  "is_dominating_set G D =
     (D \<subseteq> set (nodes G) \<and>
      list_all (\<lambda>(n, nb). n \<in> D \<or> list_ex (\<lambda>m. m \<in> D) nb) G)"

text \<open>
  The induced subgraph in the spec's words: "extracted nodes + edges between them".
\<close>

definition induced_subgraph :: "'a graph \<Rightarrow> 'a set \<Rightarrow> 'a graph" where
  "induced_subgraph G S =
     map (\<lambda>(n, nb). (n, filter (\<lambda>m. m \<in> S) nb)) (filter (\<lambda>(n, nb). n \<in> S) G)"

text \<open>
  Modelled from the spec: \<open>nx.minimum_spanning_tree\<close>, a library routine, for
  concrete graphs. "Any minimum-weight spanning tree on the graph with all edge weights
  equal (degenerates to a spanning forest if disconnected)": the one the library's
  default, Kruskal's algorithm, builds. With every edge of weight 1 it reads the edges in
  the order of \<open>G.edges()\<close> (for each node, its neighbours not seen as a node
  before) and keeps an edge when its endpoints are in different components;
  \<open>component\<close> labels each node with its component. The tree has all the nodes of
  the graph, in the same order, and the kept edges.
\<close>

fun edges_from :: "'a graph \<Rightarrow> 'a set \<Rightarrow> ('a \<times> 'a) list" where
  "edges_from [] seen = []"
| "edges_from ((n, nb) # rest) seen =
     map (\<lambda>m. (n, m)) (filter (\<lambda>m. m \<notin> seen) nb) @ edges_from rest (insert n seen)"

fun kruskal :: "('a \<times> 'a) list \<Rightarrow> ('a \<Rightarrow> 'a) \<Rightarrow> ('a \<times> 'a) list" where
  "kruskal [] component = []"
| "kruskal ((u, v) # es) component =
     (if component u \<noteq> component v
      then (u, v) # kruskal es (\<lambda>x. if component x = component u then component v else component x)
      else kruskal es component)"

definition add_edge :: "'a graph \<Rightarrow> 'a \<times> 'a \<Rightarrow> 'a graph" where
  "add_edge T e =
     map (\<lambda>(n, nb).
            (n, (let nb1 = (if n = fst e \<and> snd e \<notin> set nb then nb @ [snd e] else nb)
                 in if n = snd e \<and> fst e \<notin> set nb1 then nb1 @ [fst e] else nb1))) T"

definition kruskal_spanning_tree :: "'a graph \<Rightarrow> 'a graph" where
  "kruskal_spanning_tree G =
     foldl add_edge (map (\<lambda>(n, nb). (n, [])) G) (kruskal (edges_from G {}) (\<lambda>x. x))"

subsection \<open>Random strategy\<close>

text \<open>
  Modelled from the spec: \<open>numpy.random.choice(a, size, replace=False)\<close>, a library
  routine that reads the library's global generator. "A fresh uniform sample of k
  distinct node indices without replacement": any list of \<open>size\<close> (here \<open>sample_size\<close>) distinct numbers
  below \<open>a\<close> can be the result. A sample larger than the population is the library's
  \<open>ValueError\<close>. The generator's state is not an argument of \<open>random_strategy\<close>, so
  the call is a relation between the arguments and the possible results.
\<close>

definition np_random_choice :: "nat \<Rightarrow> nat \<Rightarrow> error + nat list \<Rightarrow> bool" where
  "np_random_choice a sample_size r =
     (case r of
        Inl e \<Rightarrow> a < sample_size \<and> e = ValueError
      | Inr seed_values \<Rightarrow>
          sample_size \<le> a \<and> length seed_values = sample_size \<and> distinct seed_values \<and>
          list_all (\<lambda>x. x < a) seed_values)"

text \<open>
  The loop of \<open>random_strategy\<close>: \<open>remaining\<close> iterations are left and
  \<open>all_seed_values\<close> holds the rounds drawn so far.
\<close>

inductive random_loop :: "'a graph \<Rightarrow> nat \<Rightarrow> nat \<Rightarrow> nat list \<Rightarrow> error + nat list \<Rightarrow> bool" where
  loop_done: "random_loop G num_seeds 0 all_seed_values (Inr all_seed_values)"
| loop_draw: "np_random_choice (length G) num_seeds (Inr seed_values) \<Longrightarrow>
     random_loop G num_seeds remaining (all_seed_values @ seed_values) r \<Longrightarrow>
     random_loop G num_seeds (Suc remaining) all_seed_values r"
| loop_raise: "np_random_choice (length G) num_seeds (Inl e) \<Longrightarrow>
     random_loop G num_seeds (Suc remaining) all_seed_values (Inl e)"

definition random_strategy :: "'a graph \<Rightarrow> nat \<Rightarrow> nat \<Rightarrow> error + nat list \<Rightarrow> bool" where
  "random_strategy G num_iterations num_seeds r = random_loop G num_seeds num_iterations [] r"

text \<open>Round \<open>i\<close> of a schedule whose rounds have \<open>w\<close> entries each.\<close>

definition round_of :: "nat \<Rightarrow> nat \<Rightarrow> 'a list \<Rightarrow> 'a list" where
  "round_of w i schedule = take w (drop (i * w) schedule)"

subsection \<open>The completion policy in the spec's words\<close>

text \<open>
  The spec's fallback order: "ordered sequence of all graph nodes by descending
  whole-graph degree centrality".
\<close>

definition fallback_order :: "'a graph \<Rightarrow> 'a list" where
  "fallback_order G = map fst (sorted_reverse (degree_centrality G))"

text \<open>
  The spec's completion: "iterate \<open>fallback_order\<close>; for each node not already present
  in \<open>partial\<close>, append it; stop once \<open>|partial| == k\<close>".
\<close>

definition completed_round :: "'a graph \<Rightarrow> 'a list \<Rightarrow> nat \<Rightarrow> 'a list" where
  "completed_round G partial k =
     partial @ take (k - length partial) (filter (\<lambda>x. x \<notin> set partial) (fallback_order G))"

text \<open>
  A schedule is the seed round repeated: it is the repetition, and each of its rounds,
  cut at the round's length, is the seed round.
\<close>

definition replicated :: "nat \<Rightarrow> 'a list \<Rightarrow> 'a list \<Rightarrow> bool" where
  "replicated num_iterations seed_round schedule =
     (schedule = repeat seed_round num_iterations \<and>
      list_all (\<lambda>i. round_of (length seed_round) i schedule = seed_round) [0..<num_iterations])"

subsection \<open>Example graphs\<close>

text \<open>The complete graph on a list of nodes, in the order of the list.\<close>

definition complete_graph :: "'a list \<Rightarrow> 'a graph" where
  "complete_graph ns = map (\<lambda>n. (n, filter (\<lambda>m. m \<noteq> n) ns)) ns"

text \<open>Two nodes and no edge.\<close>

definition edgeless2 :: "nat graph" where
  "edgeless2 = [(0, []), (1, [])]"

text \<open>The path 0 - 1 - 2.\<close>

definition path3 :: "nat graph" where
  "path3 = [(0, [1]), (1, [0, 2]), (2, [1])]"

text \<open>
  Four nodes, every pair joined but 0 and 3: nodes 1 and 2 have degree 3, nodes 0 and 3
  have degree 2.
\<close>

definition diamond :: "nat graph" where
  "diamond = [(0, [1, 2]), (1, [0, 2, 3]), (2, [0, 1, 3]), (3, [1, 2])]"

text \<open>
  The complete graph on 0, 1, 2, 3 and a fifth node joined to node 1 only: node 1 has
  degree 4, nodes 0, 2 and 3 have degree 3.
\<close>

definition kite :: "nat graph" where
  "kite = [(0, [1, 2, 3]), (1, [0, 2, 3, 4]), (2, [0, 1, 3]), (3, [0, 1, 2]), (4, [1])]"

section \<open>Lemmas\<close>

subsection \<open>Top-k selection\<close>

lemma mset_insert_desc: "mset (insert_desc x ys) = add_mset x (mset ys)"
  by (induction ys) auto

lemma mset_sorted_reverse: "mset (sorted_reverse xs) = mset xs"
  unfolding sorted_reverse_def by (induction xs) (auto simp: mset_insert_desc)

lemma length_sorted_reverse: "length (sorted_reverse xs) = length xs"
  by (metis mset_sorted_reverse size_mset)

lemma set_sorted_reverse: "set (sorted_reverse xs) = set xs"
  by (metis mset_sorted_reverse set_mset_mset)

lemma mset_keys_sorted_reverse: "mset (map fst (sorted_reverse xs)) = mset (map fst xs)"
  by (metis mset_sorted_reverse mset_map)

lemma distinct_keys_sorted_reverse:
  "distinct (map fst (sorted_reverse xs)) = distinct (map fst xs)"
  by (metis mset_keys_sorted_reverse mset_eq_imp_distinct_iff)

lemma set_keys_sorted_reverse: "set (map fst (sorted_reverse xs)) = set (map fst xs)"
  by (metis mset_keys_sorted_reverse set_mset_mset)

lemma set_insert_desc: "set (insert_desc x ys) = insert x (set ys)"
  by (metis mset_insert_desc set_mset_mset set_mset_add_mset_insert)

lemma descending_insert_desc:
  "sorted_wrt (\<lambda>p q. snd q \<le> snd p) ys \<Longrightarrow> sorted_wrt (\<lambda>p q. snd q \<le> snd p) (insert_desc x ys)"
  by (induction ys) (auto simp: set_insert_desc)

lemma descending_sorted_reverse: "sorted_wrt (\<lambda>p q. snd q \<le> snd p) (sorted_reverse xs)"
  unfolding sorted_reverse_def by (induction xs) (auto simp: descending_insert_desc)

lemma filter_insert_desc:
  "filter (\<lambda>p. snd p = s) (insert_desc x ys) =
     (if snd x = s then x # filter (\<lambda>p. snd p = s) ys else filter (\<lambda>p. snd p = s) ys)"
  by (induction ys) auto

lemma stable_sorted_reverse:
  "filter (\<lambda>p. snd p = s) (sorted_reverse xs) = filter (\<lambda>p. snd p = s) xs"
  unfolding sorted_reverse_def by (induction xs) (auto simp: filter_insert_desc)

lemma sorted_reverse_all_tied:
  assumes "\<forall>p \<in> set xs. snd p = c"
  shows "sorted_reverse xs = xs"
proof -
  have "\<forall>p \<in> set (sorted_reverse xs). snd p = c"
    using assms by (simp add: set_sorted_reverse)
  then have "filter (\<lambda>p. snd p = c) (sorted_reverse xs) = sorted_reverse xs"
    by (simp add: filter_id_conv)
  moreover have "filter (\<lambda>p. snd p = c) xs = xs"
    using assms by (simp add: filter_id_conv)
  ultimately show ?thesis
    using stable_sorted_reverse [of c xs] by simp
qed

lemma length_nlargest: "length (nlargest n xs) = min n (length xs)"
  by (simp add: nlargest_def length_sorted_reverse min.commute)

lemma distinct_keys_nlargest:
  "distinct (map fst xs) \<Longrightarrow> distinct (map fst (nlargest n xs))"
  by (simp add: nlargest_def distinct_keys_sorted_reverse take_map [symmetric] del: take_map)

lemma set_keys_nlargest: "set (map fst (nlargest n xs)) \<subseteq> set (map fst xs)"
proof -
  have "set (map fst (nlargest n xs)) \<subseteq> set (map fst (sorted_reverse xs))"
    unfolding nlargest_def by (metis set_take_subset take_map)
  then show ?thesis by (simp only: set_keys_sorted_reverse)
qed

lemma nlargest_all: "length xs \<le> n \<Longrightarrow> nlargest n xs = sorted_reverse xs"
  by (simp add: nlargest_def length_sorted_reverse)

subsection \<open>Repetition\<close>

lemma length_repeat: "length (repeat xs n) = n * length xs"
  unfolding repeat_def by (induction n) auto

lemma repeat_once: "repeat xs 1 = xs"
  by (simp add: repeat_def)

lemma round_of_repeat:
  "i < n \<Longrightarrow> round_of (length xs) i (repeat xs n) = xs"
proof (induction n arbitrary: i)
  case 0
  then show ?case by simp
next
  case (Suc n)
  show ?case
  proof (cases i)
    case 0
    then show ?thesis by (simp add: round_of_def repeat_def)
  next
    case (Suc j)
    with Suc.prems have "j < n" by simp
    from Suc.IH [OF this] show ?thesis
      using Suc by (simp add: round_of_def repeat_def)
  qed
qed

subsection \<open>Degree centrality\<close>

lemma keys_degree_centrality: "map fst (degree_centrality G) = nodes G"
  by (auto simp: degree_centrality_def nodes_def Let_def split_def)

lemma length_degree_centrality: "length (degree_centrality G) = length G"
  by (metis keys_degree_centrality length_map nodes_def)

subsection \<open>The padding loop\<close>

lemma padding_loop_length: "padding_loop ks fb k = Inr r \<Longrightarrow> length r = k"
  by (induction fb arbitrary: ks) (auto split: if_splits)

lemma padding_loop_error: "padding_loop ks fb k = Inl e \<Longrightarrow> e = IndexError"
  by (induction fb arbitrary: ks) (auto split: if_splits)

lemma padding_loop_pads:
  "length ks \<le> k \<Longrightarrow> distinct fb \<Longrightarrow>
   k \<le> length ks + length (filter (\<lambda>x. x \<notin> set ks) fb) \<Longrightarrow>
   padding_loop ks fb k = Inr (ks @ take (k - length ks) (filter (\<lambda>x. x \<notin> set ks) fb))"
proof (induction fb arbitrary: ks)
  case Nil
  then show ?case by simp
next
  case (Cons x rest)
  show ?case
  proof (cases "length ks = k")
    case True
    then show ?thesis by simp
  next
    case False
    with Cons.prems have short: "length ks < k" by simp
    show ?thesis
    proof (cases "x \<in> set ks")
      case True
      with Cons.prems have "k \<le> length ks + length (filter (\<lambda>x. x \<notin> set ks) rest)" by simp
      with Cons.IH [of ks] Cons.prems True False show ?thesis by simp
    next
      case new: False
      from Cons.prems have "x \<notin> set rest" by simp
      then have same: "filter (\<lambda>y. y \<notin> set (ks @ [x])) rest = filter (\<lambda>y. y \<notin> set ks) rest"
        by (intro filter_cong) auto
      have "padding_loop (ks @ [x]) rest k =
          Inr ((ks @ [x]) @ take (k - length (ks @ [x])) (filter (\<lambda>y. y \<notin> set (ks @ [x])) rest))"
        using Cons.prems short new same by (intro Cons.IH) auto
      moreover have "take (k - length ks) (x # filter (\<lambda>y. y \<notin> set ks) rest) =
          x # take (k - length (ks @ [x])) (filter (\<lambda>y. y \<notin> set ks) rest)"
      proof -
        from short obtain d where d: "k - length ks = Suc d" by (cases "k - length ks") auto
        then have "k - length (ks @ [x]) = d" by simp
        with d show ?thesis by simp
      qed
      ultimately show ?thesis
        using new False same by simp
    qed
  qed
qed

lemma padding_loop_exhausted:
  "distinct ks \<Longrightarrow> set ks \<subseteq> S \<Longrightarrow> set fb \<subseteq> S \<Longrightarrow> finite S \<Longrightarrow> card S < k \<Longrightarrow>
   padding_loop ks fb k = Inl IndexError"
proof (induction fb arbitrary: ks)
  case Nil
  have "length ks = card (set ks)" using Nil.prems by (simp add: distinct_card)
  also have "\<dots> \<le> card S" using Nil.prems by (simp add: card_mono)
  finally show ?case using Nil.prems by simp
next
  case (Cons x rest)
  have "length ks = card (set ks)" using Cons.prems by (simp add: distinct_card)
  also have "\<dots> \<le> card S" using Cons.prems by (simp add: card_mono)
  finally have short: "length ks \<noteq> k" using Cons.prems by simp
  have "padding_loop (if x \<notin> set ks then ks @ [x] else ks) rest k = Inl IndexError"
    using Cons.prems by (intro Cons.IH) auto
  with short show ?case by simp
qed

text \<open>Enough of a distinct list lies outside a short one.\<close>

lemma length_filter_outside:
  assumes "distinct fb"
  shows "length fb \<le> length ks + length (filter (\<lambda>x. x \<notin> set ks) fb)"
proof -
  have "length (filter (\<lambda>x. x \<in> set ks) fb) = card (set ks \<inter> set fb)"
    using assms by (simp add: distinct_length_filter Int_commute Collect_mem_eq)
  also have "\<dots> \<le> card (set ks)" by (simp add: card_mono)
  also have "\<dots> \<le> length ks" by (rule card_length)
  finally have "length (filter (\<lambda>x. x \<in> set ks) fb) \<le> length ks" .
  moreover have "length fb = length (filter (\<lambda>x. x \<in> set ks) fb) + length (filter (\<lambda>x. x \<notin> set ks) fb)"
    using sum_length_filter_compl [of "\<lambda>x. x \<in> set ks" fb] by simp
  ultimately show ?thesis by simp
qed

lemma take_filter_take:
  assumes "m \<le> length (filter P (take k xs))"
  shows "take m (filter P (take k xs)) = take m (filter P xs)"
proof -
  have "filter P xs = filter P (take k xs) @ filter P (drop k xs)"
    by (metis append_take_drop_id filter_append)
  then show ?thesis using assms by simp
qed

text \<open>
  Padding from the top \<open>k\<close> of a distinct order pads as the whole order would.
\<close>

lemma padding_loop_top_k:
  assumes "length ks \<le> k" and "distinct full" and "k \<le> length full"
  shows "padding_loop ks (take k full) k =
           Inr (ks @ take (k - length ks) (filter (\<lambda>x. x \<notin> set ks) full))"
proof -
  have d: "distinct (take k full)" using assms by simp
  have "length (take k full) \<le> length ks + length (filter (\<lambda>x. x \<notin> set ks) (take k full))"
    using d by (rule length_filter_outside)
  then have enough: "k \<le> length ks + length (filter (\<lambda>x. x \<notin> set ks) (take k full))"
    using assms by simp
  then have "k - length ks \<le> length (filter (\<lambda>x. x \<notin> set ks) (take k full))" by simp
  then have "take (k - length ks) (filter (\<lambda>x. x \<notin> set ks) (take k full)) =
      take (k - length ks) (filter (\<lambda>x. x \<notin> set ks) full)"
    by (rule take_filter_take)
  with padding_loop_pads [OF assms(1) d enough] show ?thesis by simp
qed

lemma distinct_padded:
  "distinct ks \<Longrightarrow> distinct full \<Longrightarrow>
   distinct (ks @ take m (filter (\<lambda>x. x \<notin> set ks) full))"
  by (auto dest: in_set_takeD)

subsection \<open>The fallback order\<close>

text \<open>All nodes by descending degree centrality in the whole graph.\<close>

lemma top_degrees_take:
  "degree_centrality_strategy G 1 k = take k (map fst (sorted_reverse (degree_centrality G)))"
  by (simp add: degree_centrality_strategy_def repeat_def nlargest_def take_map)

lemma distinct_degree_order:
  "is_graph G \<Longrightarrow> distinct (map fst (sorted_reverse (degree_centrality G)))"
  by (simp add: distinct_keys_sorted_reverse keys_degree_centrality is_graph_def)

lemma set_degree_order:
  "set (map fst (sorted_reverse (degree_centrality G))) = set (nodes G)"
  by (simp only: set_keys_sorted_reverse keys_degree_centrality)

lemma length_degree_order:
  "length (map fst (sorted_reverse (degree_centrality G))) = length G"
  by (simp add: length_sorted_reverse length_degree_centrality)

subsection \<open>Candidates of the extraction strategies\<close>

lemma nodes_remove_nodes_from:
  "nodes (remove_nodes_from G R) = filter (\<lambda>n. n \<notin> R) (nodes G)"
  by (induction G) (auto simp: remove_nodes_from_def nodes_def)

lemma nodes_kept: "nodes (remove_nodes_from G (set (nodes G) - S)) = filter (\<lambda>n. n \<in> S) (nodes G)"
  unfolding nodes_remove_nodes_from by (rule filter_cong) auto

lemma length_graph: "length G = length (nodes G)"
  by (simp add: nodes_def)

lemma subset_node_keys_eq:
  "subset_node_keys G S k =
     map fst (nlargest (min k (card S)) (degree_centrality (remove_nodes_from G (set (nodes G) - S))))"
  by (simp add: subset_node_keys_def Let_def min_def)

lemma length_subset_node_keys_le: "length (subset_node_keys G S k) \<le> k"
  by (simp add: subset_node_keys_eq length_nlargest)

lemma distinct_subset_node_keys: "is_graph G \<Longrightarrow> distinct (subset_node_keys G S k)"
  unfolding subset_node_keys_eq
  by (intro distinct_keys_nlargest) (simp add: keys_degree_centrality nodes_kept is_graph_def)

lemma set_subset_node_keys: "set (subset_node_keys G S k) \<subseteq> S \<inter> set (nodes G)"
proof -
  have "set (subset_node_keys G S k) \<subseteq> set (nodes (remove_nodes_from G (set (nodes G) - S)))"
    unfolding subset_node_keys_eq using set_keys_nlargest [of "min k (card S)"]
    by (metis keys_degree_centrality)
  then show ?thesis by (auto simp: nodes_kept)
qed

lemma length_kept:
  assumes "is_graph G" and "S \<subseteq> set (nodes G)"
  shows "length (remove_nodes_from G (set (nodes G) - S)) = card S"
proof -
  have "length (remove_nodes_from G (set (nodes G) - S)) = length (filter (\<lambda>n. n \<in> S) (nodes G))"
    by (metis length_graph nodes_kept)
  also have "\<dots> = card ({n. n \<in> S} \<inter> set (nodes G))"
    using assms by (simp add: distinct_length_filter is_graph_def)
  also have "{n. n \<in> S} \<inter> set (nodes G) = S" using assms by auto
  finally show ?thesis .
qed

lemma length_subset_node_keys:
  "is_graph G \<Longrightarrow> S \<subseteq> set (nodes G) \<Longrightarrow> length (subset_node_keys G S k) = min k (card S)"
  by (simp add: subset_node_keys_eq length_nlargest length_degree_centrality length_kept)

lemma mst_node_keys_eq:
  "mst_node_keys T k = map fst (nlargest (min k (length T)) (degree_centrality T))"
  by (simp add: mst_node_keys_def Let_def min_def)

lemma length_mst_node_keys: "length (mst_node_keys T k) = min k (length T)"
  by (simp add: mst_node_keys_eq length_nlargest length_degree_centrality)

lemma distinct_mst_node_keys: "distinct (nodes T) \<Longrightarrow> distinct (mst_node_keys T k)"
  unfolding mst_node_keys_eq
  by (intro distinct_keys_nlargest) (simp add: keys_degree_centrality)

lemma set_mst_node_keys: "set (mst_node_keys T k) \<subseteq> set (nodes T)"
  unfolding mst_node_keys_eq using set_keys_nlargest [of "min k (length T)"]
  by (metis keys_degree_centrality)

subsection \<open>Padding and repeating\<close>

lemma top_degrees_fallback: "degree_centrality_strategy G 1 k = take k (fallback_order G)"
  unfolding fallback_order_def by (rule top_degrees_take)

lemma distinct_fallback_order: "is_graph G \<Longrightarrow> distinct (fallback_order G)"
  by (simp add: fallback_order_def distinct_degree_order)

lemma set_fallback_order: "set (fallback_order G) = set (nodes G)"
  by (simp only: fallback_order_def set_degree_order)

lemma length_fallback_order: "length (fallback_order G) = length G"
  by (simp only: fallback_order_def length_degree_order)

lemma padding_enough:
  assumes "is_graph G" and "k \<le> length G" and "length ks \<le> k"
  shows "padding_loop ks (degree_centrality_strategy G 1 k) k = Inr (completed_round G ks k)"
  unfolding top_degrees_fallback completed_round_def
  using assms by (intro padding_loop_top_k) (simp_all add: distinct_fallback_order length_fallback_order)

lemma length_completed_round:
  assumes "is_graph G" and "k \<le> length G" and "length ks \<le> k"
  shows "length (completed_round G ks k) = k"
  using padding_enough [OF assms] padding_loop_length by blast

lemma distinct_completed_round:
  "is_graph G \<Longrightarrow> distinct ks \<Longrightarrow> distinct (completed_round G ks k)"
  unfolding completed_round_def by (intro distinct_padded) (simp_all add: distinct_fallback_order)

lemma padding_short_graph:
  assumes "is_graph G" and "length G < k" and "distinct ks" and "set ks \<subseteq> set (nodes G)"
  shows "padding_loop ks (degree_centrality_strategy G 1 k) k = Inl IndexError"
proof (rule padding_loop_exhausted [where S = "set (nodes G)"])
  show "set (degree_centrality_strategy G 1 k) \<subseteq> set (nodes G)"
    unfolding top_degrees_fallback using set_fallback_order [of G] by (auto dest: in_set_takeD)
  have "card (set (nodes G)) \<le> length (nodes G)" by (rule card_length)
  then show "card (set (nodes G)) < k" using assms(2) by (simp add: length_graph)
qed (use assms in simp_all)

lemma pad_and_repeat_enough:
  assumes "is_graph G" and "k \<le> length G" and "length ks \<le> k"
  shows "pad_and_repeat G ks it k = Inr (repeat (completed_round G ks k) it)"
  unfolding pad_and_repeat_def Let_def padding_enough [OF assms]
  by (simp add: length_completed_round [OF assms])

lemma pad_and_repeat_short_graph:
  assumes "is_graph G" and "length G < k" and "distinct ks" and "set ks \<subseteq> set (nodes G)"
  shows "pad_and_repeat G ks it k = Inl IndexError"
  unfolding pad_and_repeat_def Let_def padding_short_graph [OF assms] by simp

lemma pad_and_repeat_no_assertion: "pad_and_repeat G ks it k \<noteq> Inl AssertionError"
  by (auto simp: pad_and_repeat_def split: sum.splits dest: padding_loop_length padding_loop_error)

subsection \<open>The assertion of the dominating-set strategy\<close>

lemma assertion_holds_iff:
  "length (nodes G) > length (nodes (remove_nodes_from G (set (nodes G) - S)))
     \<longleftrightarrow> \<not> set (nodes G) \<subseteq> S"
proof -
  have "length (filter (\<lambda>n. n \<in> S) (nodes G)) = length (nodes G) \<longleftrightarrow> set (nodes G) \<subseteq> S"
  proof
    assume "length (filter (\<lambda>n. n \<in> S) (nodes G)) = length (nodes G)"
    then show "set (nodes G) \<subseteq> S"
      by (auto dest: length_filter_less [where P = "\<lambda>n. n \<in> S"])
  next
    assume "set (nodes G) \<subseteq> S"
    then have "filter (\<lambda>n. n \<in> S) (nodes G) = nodes G"
      by (auto simp: filter_id_conv)
    then show "length (filter (\<lambda>n. n \<in> S) (nodes G)) = length (nodes G)" by simp
  qed
  moreover have "length (filter (\<lambda>n. n \<in> S) (nodes G)) \<le> length (nodes G)" by simp
  ultimately show ?thesis unfolding nodes_kept by linarith
qed

lemma dominating_set_strategy_eq:
  "dominating_set_strategy ds G it k =
     (if set (nodes G) \<subseteq> ds G then Inl AssertionError
      else pad_and_repeat G (subset_node_keys G (ds G) k) it k)"
  using assertion_holds_iff [of G "ds G"]
  by (simp add: dominating_set_strategy_def Let_def)

subsection \<open>Ties and repetition\<close>

lemma nlargest_all_tied:
  assumes "list_all (\<lambda>p. snd p = c) items"
  shows "map fst (nlargest k items) = take k (map fst items)"
proof -
  from assms have "\<forall>p \<in> set items. snd p = c" by (simp add: list_all_iff)
  then have "sorted_reverse items = items" by (rule sorted_reverse_all_tied)
  then show ?thesis by (simp add: nlargest_def take_map)
qed

lemma degree_centrality_K4:
  assumes "distinct [a, b, c, d]"
  shows "degree_centrality (complete_graph [a, b, c, d]) = [(a, 1), (b, 1), (c, 1), (d, 1)]"
  using assms by (auto simp: degree_centrality_def complete_graph_def degree_def)

lemma replicated_repeat: "replicated it r (repeat r it)"
  by (simp add: replicated_def list_all_iff round_of_repeat)

lemma pad_and_repeat_replicated:
  "rel_sum (=) (replicated it) (pad_and_repeat G ks 1 k) (pad_and_repeat G ks it k)"
  unfolding pad_and_repeat_def Let_def repeat_once [symmetric]
  by (cases "padding_loop ks (degree_centrality_strategy G 1 k) k")
    (simp_all add: replicated_repeat repeat_def [of _ "Suc 0"])

subsection \<open>When the padding fails\<close>

lemma padding_fails_iff:
  assumes "is_graph G" and "distinct ks" and "set ks \<subseteq> set (nodes G)" and "length ks \<le> k"
  shows "isl (padding_loop ks (degree_centrality_strategy G 1 k) k) \<longleftrightarrow> length G < k"
proof (cases "length G < k")
  case True
  with padding_short_graph [OF assms(1) True assms(2,3)] show ?thesis by simp
next
  case False
  then have "k \<le> length G" by simp
  from padding_enough [OF assms(1) this assms(4)] False show ?thesis by simp
qed

lemma pad_and_repeat_fails_iff:
  assumes "is_graph G" and "distinct ks" and "set ks \<subseteq> set (nodes G)" and "length ks \<le> k"
  shows "pad_and_repeat G ks it k = Inl IndexError \<longleftrightarrow> length G < k"
proof (cases "length G < k")
  case True
  with pad_and_repeat_short_graph [OF assms(1) True assms(2,3)] show ?thesis by simp
next
  case False
  then have "k \<le> length G" by simp
  from pad_and_repeat_enough [OF assms(1) this assms(4)] False show ?thesis by simp
qed

lemma length_mst_node_keys_le: "length (mst_node_keys T k) \<le> k"
  by (simp add: length_mst_node_keys)

lemma set_subset_node_keys_nodes: "set (subset_node_keys G S k) \<subseteq> set (nodes G)"
  using set_subset_node_keys [of G S k] by blast

lemma length_top_degrees: "length (degree_centrality_strategy G 1 k) = min k (length G)"
  unfolding top_degrees_fallback by (simp add: length_fallback_order min.commute)

subsection \<open>The random loop\<close>

lemma random_loop_sound:
  "random_loop G k n acc r \<Longrightarrow>
   (case r of
      Inl e \<Rightarrow> length G < k \<and> e = ValueError
    | Inr out \<Rightarrow> \<exists>ss. length ss = n \<and>
        list_all (\<lambda>s. np_random_choice (length G) k (Inr s)) ss \<and> out = acc @ concat ss)"
proof (induction rule: random_loop.induct)
  case (loop_done G k acc)
  then show ?case by simp
next
  case (loop_draw G k s n acc r)
  show ?case
  proof (cases r)
    case (Inl e)
    with loop_draw.IH show ?thesis by simp
  next
    case (Inr out)
    with loop_draw.IH obtain ss where
      "length ss = n" "list_all (\<lambda>s. np_random_choice (length G) k (Inr s)) ss"
      "out = (acc @ s) @ concat ss" by auto
    with loop_draw.hyps(1) have
      "length (s # ss) = Suc n \<and> list_all (\<lambda>s. np_random_choice (length G) k (Inr s)) (s # ss)
        \<and> out = acc @ concat (s # ss)" by simp
    with Inr show ?thesis by (simp only: sum.case) blast
  qed
next
  case (loop_raise G k e n acc)
  then show ?case by (simp add: np_random_choice_def)
qed

lemma random_loop_complete:
  "list_all (\<lambda>s. np_random_choice (length G) k (Inr s)) ss \<Longrightarrow>
   random_loop G k (length ss) acc (Inr (acc @ concat ss))"
proof (induction ss arbitrary: acc)
  case Nil
  show ?case by (simp add: loop_done)
next
  case (Cons s ss)
  from Cons.prems have head: "np_random_choice (length G) k (Inr s)"
    and tail: "list_all (\<lambda>s. np_random_choice (length G) k (Inr s)) ss" by simp_all
  from Cons.IH [OF tail, of "acc @ s"]
  have "random_loop G k (length ss) (acc @ s) (Inr ((acc @ s) @ concat ss))" .
  from loop_draw [OF head this] show ?case by simp
qed

lemma length_concat_rounds:
  "list_all (\<lambda>s. length s = k) ss \<Longrightarrow> length (concat ss) = k * length ss"
  by (induction ss) auto

lemma round_of_concat:
  "list_all (\<lambda>s. length s = k) ss \<Longrightarrow> i < length ss \<Longrightarrow> round_of k i (concat ss) = ss ! i"
proof (induction ss arbitrary: i)
  case Nil
  then show ?case by simp
next
  case (Cons s ss)
  show ?case
  proof (cases i)
    case 0
    with Cons.prems show ?thesis by (simp add: round_of_def)
  next
    case (Suc j)
    with Cons.prems have "round_of k j (concat ss) = ss ! j" by (intro Cons.IH) auto
    with Cons.prems Suc show ?thesis by (simp add: round_of_def)
  qed
qed

lemma sample_exists: "k \<le> n \<Longrightarrow> np_random_choice n k (Inr [0..<k])"
  by (auto simp: np_random_choice_def list_all_iff)

subsection \<open>Score maps\<close>

lemma length_score_map:
  assumes "is_graph G" and "score_map G sc"
  shows "length sc = length G"
proof -
  from assms(2) have d: "distinct (map fst sc)" and s: "set (map fst sc) = set (nodes G)"
    by (simp_all add: score_map_def)
  from assms(1) have dn: "distinct (nodes G)" by (simp add: is_graph_def)
  have "length sc = length (map fst sc)" by simp
  also have "\<dots> = card (set (map fst sc))" using d by (rule distinct_card [symmetric])
  also have "\<dots> = card (set (nodes G))" by (simp only: s)
  also have "\<dots> = length (nodes G)" using dn by (rule distinct_card)
  finally show ?thesis by (simp add: length_graph)
qed

lemma length_ranked:
  "length (repeat (map fst (nlargest k sc)) it) = min k (length sc) * it"
  by (simp add: length_repeat length_nlargest mult.commute)

lemma nlargest_short_graph:
  "is_graph G \<Longrightarrow> score_map G sc \<Longrightarrow> length G < k \<Longrightarrow> nlargest k sc = sorted_reverse sc"
  using length_score_map [of G sc] by (intro nlargest_all) simp

lemma length_all_ranked:
  "is_graph G \<Longrightarrow> score_map G sc \<Longrightarrow>
   length (repeat (map fst (sorted_reverse sc)) it) = length G * it"
  using length_score_map [of G sc] by (simp add: length_repeat length_sorted_reverse mult.commute)

lemma score_map_degree_centrality: "is_graph G \<Longrightarrow> score_map G (degree_centrality G)"
  by (simp add: score_map_def keys_degree_centrality is_graph_def)

subsection \<open>The graph left after the removal\<close>

lemma remove_is_induced:
  assumes "is_graph G"
  shows "remove_nodes_from G (set (nodes G) - S) = induced_subgraph G S"
proof -
  have keys: "filter (\<lambda>(n, nb). n \<notin> set (nodes G) - S) G = filter (\<lambda>(n, nb). n \<in> S) G"
    by (rule filter_cong) (force simp: nodes_def)+
  have "filter (\<lambda>m. m \<notin> set (nodes G) - S) nb = filter (\<lambda>m. m \<in> S) nb"
    if "(n, nb) \<in> set G" for n nb
    using assms that by (intro filter_cong) (auto simp: is_graph_def list_all_iff)
  then show ?thesis
    unfolding remove_nodes_from_def induced_subgraph_def keys
    by (intro map_cong) auto
qed

section \<open>The claims\<close>

text \<open>
  C6. For every deterministic strategy (every strategy but the random one), the returned
  schedule is the per-round seed list repeated \<open>num_iterations\<close> times, so all its
  rounds are the same list. The per-round list is what the strategy returns for one
  iteration. A ranking strategy always returns; an extraction strategy that fails for one
  iteration fails the same way for any number of iterations, and one that returns a round
  returns that round repeated.
\<close>

theorem deterministic_schedule_replicated:
  "replicated it (degree_centrality_strategy G 1 k) (degree_centrality_strategy G it k) \<and>
   replicated it (clustering_coefficient_strategy cl G 1 k)
     (clustering_coefficient_strategy cl G it k) \<and>
   replicated it (eigenvector_centrality_strategy ev G 1 k)
     (eigenvector_centrality_strategy ev G it k) \<and>
   replicated it (katz_centrality_strategy kz G 1 k) (katz_centrality_strategy kz G it k) \<and>
   replicated it (betweenness_centrality_strategy bt G 1 k)
     (betweenness_centrality_strategy bt G it k) \<and>
   rel_sum (=) (replicated it) (mst_strategy mst G 1 k) (mst_strategy mst G it k) \<and>
   rel_sum (=) (replicated it) (dominating_set_strategy ds G 1 k)
     (dominating_set_strategy ds G it k) \<and>
   rel_sum (=) (replicated it) (vertex_cover_strategy vc G 1 k)
     (vertex_cover_strategy vc G it k)"
proof (intro conjI)
  show "replicated it (degree_centrality_strategy G 1 k) (degree_centrality_strategy G it k)"
    unfolding degree_centrality_strategy_def Let_def repeat_once by (rule replicated_repeat)
  show "replicated it (clustering_coefficient_strategy cl G 1 k)
     (clustering_coefficient_strategy cl G it k)"
    unfolding clustering_coefficient_strategy_def Let_def repeat_once by (rule replicated_repeat)
  show "replicated it (eigenvector_centrality_strategy ev G 1 k)
     (eigenvector_centrality_strategy ev G it k)"
    unfolding eigenvector_centrality_strategy_def Let_def repeat_once by (rule replicated_repeat)
  show "replicated it (katz_centrality_strategy kz G 1 k) (katz_centrality_strategy kz G it k)"
    unfolding katz_centrality_strategy_def Let_def repeat_once by (rule replicated_repeat)
  show "replicated it (betweenness_centrality_strategy bt G 1 k)
     (betweenness_centrality_strategy bt G it k)"
    unfolding betweenness_centrality_strategy_def Let_def repeat_once by (rule replicated_repeat)
  show "rel_sum (=) (replicated it) (mst_strategy mst G 1 k) (mst_strategy mst G it k)"
    unfolding mst_strategy_def Let_def by (rule pad_and_repeat_replicated)
  show "rel_sum (=) (replicated it) (dominating_set_strategy ds G 1 k)
     (dominating_set_strategy ds G it k)"
    unfolding dominating_set_strategy_eq
    using pad_and_repeat_replicated [of it G "subset_node_keys G (ds G) k" k] by simp
  show "rel_sum (=) (replicated it) (vertex_cover_strategy vc G 1 k)
     (vertex_cover_strategy vc G it k)"
    unfolding vertex_cover_strategy_def Let_def by (rule pad_and_repeat_replicated)
qed

theorem deterministic_schedule_replicated_witness:
  "degree_centrality_strategy path3 3 2 = [1, 0, 1, 0, 1, 0] \<and>
   replicated 3 [1, 0] (degree_centrality_strategy path3 3 2) \<and>
   vertex_cover_strategy (\<lambda>G. {1}) path3 1 3 = Inr [1, 0, 2] \<and>
   rel_sum (=) (replicated 2) (Inr [1, 0, 2]) (vertex_cover_strategy (\<lambda>G. {1}) path3 2 3)"
proof -
  have a: "degree_centrality_strategy path3 1 2 = [1, 0]" by code_simp
  have b: "degree_centrality_strategy path3 3 2 = [1, 0, 1, 0, 1, 0]" by code_simp
  have c: "vertex_cover_strategy (\<lambda>G. {1}) path3 1 3 = Inr [1, 0, 2]" by code_simp
  have "replicated 3 (degree_centrality_strategy path3 1 2) (degree_centrality_strategy path3 3 2)"
    using deterministic_schedule_replicated [of 3 path3 2] by (rule conjunct1)
  moreover have "rel_sum (=) (replicated 2) (vertex_cover_strategy (\<lambda>G. {1}) path3 1 3)
      (vertex_cover_strategy (\<lambda>G. {1}) path3 2 3)"
    using deterministic_schedule_replicated [of 2 path3 3 _ _ _ _ _ _ "\<lambda>G. {1}"] by blast
  ultimately show ?thesis
    unfolding a c using b by simp
qed

text \<open>
  C8. The top-k selection of a ranking strategy breaks ties in the order in which the
  scores were computed: the items of one score keep their order, the list is descending,
  and when all scores are tied the selection is the first \<open>k\<close> items as they came. On
  the complete graph on four nodes \<open>a, b, c, d\<close> (whatever their identifiers), with
  \<open>num_seeds = 2\<close> and one iteration, the degree strategy returns \<open>[a, b]\<close>.
\<close>

theorem ranker_tie_break_stable:
  "filter (\<lambda>p. snd p = s) (sorted_reverse items) = filter (\<lambda>p. snd p = s) items \<and>
   sorted_wrt (\<lambda>p q. snd q \<le> snd p) (sorted_reverse items) \<and>
   (list_all (\<lambda>p. snd p = t) items \<longrightarrow> map fst (nlargest k items) = take k (map fst items)) \<and>
   (distinct [a, b, c, d] \<longrightarrow>
      degree_centrality_strategy (complete_graph [a, b, c, d]) 1 2 = [a, b])"
proof (intro conjI impI)
  show "filter (\<lambda>p. snd p = s) (sorted_reverse items) = filter (\<lambda>p. snd p = s) items"
    by (rule stable_sorted_reverse)
  show "sorted_wrt (\<lambda>p q. snd q \<le> snd p) (sorted_reverse items)"
    by (rule descending_sorted_reverse)
  show "map fst (nlargest k items) = take k (map fst items)" if "list_all (\<lambda>p. snd p = t) items"
    using that by (rule nlargest_all_tied)
  show "degree_centrality_strategy (complete_graph [a, b, c, d]) 1 2 = [a, b]"
    if "distinct [a, b, c, d]"
  proof -
    have "list_all (\<lambda>p. snd p = 1) (degree_centrality (complete_graph [a, b, c, d]))"
      by (simp add: degree_centrality_K4 [OF that])
    then have "map fst (nlargest 2 (degree_centrality (complete_graph [a, b, c, d]))) =
        take 2 (map fst (degree_centrality (complete_graph [a, b, c, d])))"
      by (rule nlargest_all_tied)
    then show ?thesis
      unfolding degree_centrality_strategy_def Let_def repeat_def
      by (simp add: degree_centrality_K4 [OF that] numeral_2_eq_2)
  qed
qed

theorem ranker_tie_break_stable_witness:
  "degree_centrality_strategy (complete_graph [3, 0, 2, 1 :: nat]) 1 2 = [3, 0] \<and>
   map fst (nlargest 2 [(5 :: nat, 1 :: rat), (2, 1), (4, 1)]) = [5, 2] \<and>
   filter (\<lambda>p. snd p = 1) (sorted_reverse [(5 :: nat, 1 :: rat), (7, 2), (4, 1)]) = [(5, 1), (4, 1)]"
  using ranker_tie_break_stable [of 1 "[(5 :: nat, 1 :: rat), (7, 2), (4, 1)]" 1 2 "3 :: nat" 0 2 1]
    ranker_tie_break_stable [of 1 "[(5 :: nat, 1 :: rat), (2, 1), (4, 1)]" 1 2 "3 :: nat" 0 2 1]
  by simp

text \<open>
  C10. \<open>dominating_set_strategy\<close> ends with \<open>AssertionError\<close> exactly when the
  dominating set the library returned holds every node of the graph, whatever
  \<open>num_seeds\<close> is (also when the graph has at least \<open>num_seeds\<close> nodes). Every
  dominating set of a graph without edges, or of a graph with one node, holds every node,
  so the strategy fails on those graphs.
\<close>

theorem dominating_set_assertion:
  "(dominating_set_strategy ds G it k = Inl AssertionError \<longleftrightarrow> set (nodes G) \<subseteq> ds G) \<and>
   (is_dominating_set G (ds G) \<and> list_all (\<lambda>(n, nb). nb = []) G \<longrightarrow>
      dominating_set_strategy ds G it k = Inl AssertionError) \<and>
   (is_graph G \<and> is_dominating_set G (ds G) \<and> length G = 1 \<longrightarrow>
      dominating_set_strategy ds G it k = Inl AssertionError)"
proof (intro conjI impI)
  show iff: "dominating_set_strategy ds G it k = Inl AssertionError \<longleftrightarrow> set (nodes G) \<subseteq> ds G"
    by (simp add: dominating_set_strategy_eq pad_and_repeat_no_assertion)
  show "dominating_set_strategy ds G it k = Inl AssertionError"
    if "is_dominating_set G (ds G) \<and> list_all (\<lambda>(n, nb). nb = []) G"
  proof -
    from that have "set (nodes G) \<subseteq> ds G"
      by (fastforce simp: is_dominating_set_def list_all_iff nodes_def list_ex_iff)
    with iff show ?thesis by simp
  qed
  show "dominating_set_strategy ds G it k = Inl AssertionError"
    if "is_graph G \<and> is_dominating_set G (ds G) \<and> length G = 1"
  proof -
    from that obtain n nb where G: "G = [(n, nb)]"
      by (cases G) auto
    with that have "set nb \<subseteq> {n}"
      by (auto simp: is_graph_def nodes_def list_all_iff)
    with that G have "set (nodes G) \<subseteq> ds G"
      by (auto simp: is_dominating_set_def nodes_def list_ex_iff)
    with iff show ?thesis by simp
  qed
qed

theorem dominating_set_assertion_witness:
  "is_dominating_set edgeless2 {0, 1} \<and> 1 \<le> length edgeless2 \<and>
   dominating_set_strategy (\<lambda>G. {0, 1}) edgeless2 50 1 = Inl AssertionError \<and>
   is_graph [(0 :: nat, [])] \<and>
   dominating_set_strategy (\<lambda>G. {0}) [(0 :: nat, [])] 50 1 = Inl AssertionError"
proof -
  have a: "is_dominating_set edgeless2 {0, 1}" by code_simp
  have b: "list_all (\<lambda>(n, nb). nb = []) edgeless2" by code_simp
  have c: "is_graph [(0 :: nat, [])]" by code_simp
  have d: "is_dominating_set [(0 :: nat, [])] {0}" by code_simp
  show ?thesis
    using dominating_set_assertion [of "\<lambda>G. {0, 1}" edgeless2 50 1]
      dominating_set_assertion [of "\<lambda>G. {0}" "[(0 :: nat, [])]" 50 1] a b c d
    by (simp add: edgeless2_def)
qed

text \<open>
  C3. On a graph with at least \<open>num_seeds\<close> nodes, the round of every extraction
  strategy is the spec's completion of its candidate list: the candidates, then the nodes
  of the whole graph in descending degree-centrality order that are not among them, up to
  \<open>num_seeds\<close> entries in all. The round has exactly \<open>num_seeds\<close> entries and no
  duplicate, and the schedule is the round repeated. This holds whenever the candidate
  list is no longer than \<open>num_seeds\<close>, so in particular when it is shorter. For the
  dominating-set strategy a candidate list shorter than \<open>num_seeds\<close> means the
  assertion on the dominating set holds. The code pads from the top \<open>num_seeds\<close>
  nodes only; the result is the same as padding from the whole order.
\<close>

theorem completion_pads_in_degree_order:
  assumes "is_graph G" and "k \<le> length G"
  shows
  "(vertex_cover_strategy vc G it k =
      Inr (repeat (completed_round G (subset_node_keys G (vc G) k) k) it) \<and>
    length (completed_round G (subset_node_keys G (vc G) k) k) = k \<and>
    distinct (completed_round G (subset_node_keys G (vc G) k) k)) \<and>
   (ds G \<subseteq> set (nodes G) \<and> length (subset_node_keys G (ds G) k) < k \<longrightarrow>
    dominating_set_strategy ds G it k =
      Inr (repeat (completed_round G (subset_node_keys G (ds G) k) k) it) \<and>
    length (completed_round G (subset_node_keys G (ds G) k) k) = k \<and>
    distinct (completed_round G (subset_node_keys G (ds G) k) k)) \<and>
   (distinct (nodes (mst G)) \<longrightarrow>
    mst_strategy mst G it k = Inr (repeat (completed_round G (mst_node_keys (mst G) k) k) it) \<and>
    length (completed_round G (mst_node_keys (mst G) k) k) = k \<and>
    distinct (completed_round G (mst_node_keys (mst G) k) k)) \<and>
   sorted_wrt (\<lambda>p q. snd q \<le> snd p) (sorted_reverse (degree_centrality G)) \<and>
   set (fallback_order G) = set (nodes G)"
proof (intro conjI impI)
  let ?vc = "subset_node_keys G (vc G) k"
  let ?ds = "subset_node_keys G (ds G) k"
  let ?mst = "mst_node_keys (mst G) k"
  show "vertex_cover_strategy vc G it k = Inr (repeat (completed_round G ?vc k) it)"
    unfolding vertex_cover_strategy_def Let_def
    using assms by (intro pad_and_repeat_enough length_subset_node_keys_le)
  show "length (completed_round G ?vc k) = k"
    using assms by (intro length_completed_round length_subset_node_keys_le)
  show "distinct (completed_round G ?vc k)"
    using assms by (intro distinct_completed_round distinct_subset_node_keys)
  show "length (completed_round G ?ds k) = k"
    using assms by (intro length_completed_round length_subset_node_keys_le)
  show "distinct (completed_round G ?ds k)"
    using assms by (intro distinct_completed_round distinct_subset_node_keys)
  show "dominating_set_strategy ds G it k = Inr (repeat (completed_round G ?ds k) it)"
    if h: "ds G \<subseteq> set (nodes G) \<and> length ?ds < k"
  proof -
    have "\<not> set (nodes G) \<subseteq> ds G"
    proof
      assume "set (nodes G) \<subseteq> ds G"
      with h have "ds G = set (nodes G)" by auto
      then have "card (ds G) = length G"
        using assms(1) by (simp add: is_graph_def distinct_card length_graph)
      then have "length ?ds = k"
        using assms h by (simp add: length_subset_node_keys)
      with h show False by simp
    qed
    then show ?thesis
      unfolding dominating_set_strategy_eq
      using assms by (simp add: pad_and_repeat_enough length_subset_node_keys_le)
  qed
  show "mst_strategy mst G it k = Inr (repeat (completed_round G ?mst k) it)"
    unfolding mst_strategy_def Let_def
    using assms by (intro pad_and_repeat_enough length_mst_node_keys_le)
  show "length (completed_round G ?mst k) = k"
    using assms by (intro length_completed_round length_mst_node_keys_le)
  show "distinct (completed_round G ?mst k)" if "distinct (nodes (mst G))"
    using assms that by (intro distinct_completed_round distinct_mst_node_keys)
  show "sorted_wrt (\<lambda>p q. snd q \<le> snd p) (sorted_reverse (degree_centrality G))"
    by (rule descending_sorted_reverse)
  show "set (fallback_order G) = set (nodes G)"
    by (rule set_fallback_order)
qed

theorem completion_pads_in_degree_order_witness:
  "is_graph path3 \<and> 3 \<le> length path3 \<and>
   subset_node_keys path3 {1} 3 = [1] \<and>
   fallback_order path3 = [1, 0, 2] \<and>
   vertex_cover_strategy (\<lambda>G. {1}) path3 2 3 = Inr [1, 0, 2, 1, 0, 2] \<and>
   dominating_set_strategy (\<lambda>G. {1}) path3 2 3 = Inr [1, 0, 2, 1, 0, 2] \<and>
   mst_strategy kruskal_spanning_tree path3 2 3 = Inr [1, 0, 2, 1, 0, 2] \<and>
   distinct (completed_round path3 [1] 3)"
proof -
  have g: "is_graph path3" by code_simp
  have n: "3 \<le> length path3" by code_simp
  have c: "subset_node_keys path3 {1} 3 = [1]" by code_simp
  have f: "fallback_order path3 = [1, 0, 2]" by code_simp
  have r: "repeat (completed_round path3 [1] 3) 2 = [1, 0, 2, 1, 0, 2]" by code_simp
  have m: "mst_node_keys (kruskal_spanning_tree path3) 3 = [1, 0, 2]" by code_simp
  have rm: "repeat (completed_round path3 [1, 0, 2] 3) 2 = [1, 0, 2, 1, 0, 2]" by code_simp
  have s: "{1} \<subseteq> set (nodes path3)" "distinct (nodes (kruskal_spanning_tree path3))" by code_simp+
  show ?thesis
    using completion_pads_in_degree_order [OF g n, of "\<lambda>G. {1}" 2 "\<lambda>G. {1}" kruskal_spanning_tree]
      g n c f r m rm s
    by simp
qed

text \<open>
  C4. The padding loop of an extraction strategy fails (it reads past the end of the
  fallback list, \<open>IndexError\<close>) if and only if the graph has fewer than
  \<open>num_seeds\<close> nodes. On a graph with at least \<open>num_seeds\<close> nodes it ends with
  exactly \<open>num_seeds\<close> entries, although the fallback list holds only the top
  \<open>min(num_seeds, n)\<close> nodes by degree. The same holds of the strategies: each ends
  with \<open>IndexError\<close> exactly on the graphs with fewer than \<open>num_seeds\<close> nodes
  (the dominating-set strategy when its assertion holds).
\<close>

theorem completion_fails_iff_short_graph:
  assumes "is_graph G"
  shows
  "(isl (padding_loop (subset_node_keys G (vc G) k) (degree_centrality_strategy G 1 k) k)
      \<longleftrightarrow> length G < k) \<and>
   (isl (padding_loop (subset_node_keys G (ds G) k) (degree_centrality_strategy G 1 k) k)
      \<longleftrightarrow> length G < k) \<and>
   (distinct (nodes (mst G)) \<and> set (nodes (mst G)) \<subseteq> set (nodes G) \<longrightarrow>
      (isl (padding_loop (mst_node_keys (mst G) k) (degree_centrality_strategy G 1 k) k)
         \<longleftrightarrow> length G < k)) \<and>
   (k \<le> length G \<longrightarrow>
      (\<exists>r. padding_loop (subset_node_keys G (vc G) k) (degree_centrality_strategy G 1 k) k = Inr r
           \<and> length r = k) \<and>
      (\<exists>r. padding_loop (subset_node_keys G (ds G) k) (degree_centrality_strategy G 1 k) k = Inr r
           \<and> length r = k) \<and>
      (\<exists>r. padding_loop (mst_node_keys (mst G) k) (degree_centrality_strategy G 1 k) k = Inr r
           \<and> length r = k)) \<and>
   length (degree_centrality_strategy G 1 k) = min k (length G) \<and>
   (vertex_cover_strategy vc G it k = Inl IndexError \<longleftrightarrow> length G < k) \<and>
   (\<not> set (nodes G) \<subseteq> ds G \<longrightarrow>
      (dominating_set_strategy ds G it k = Inl IndexError \<longleftrightarrow> length G < k)) \<and>
   (distinct (nodes (mst G)) \<and> set (nodes (mst G)) \<subseteq> set (nodes G) \<longrightarrow>
      (mst_strategy mst G it k = Inl IndexError \<longleftrightarrow> length G < k))"
proof (intro conjI impI)
  let ?top = "degree_centrality_strategy G 1 k"
  let ?vc = "subset_node_keys G (vc G) k"
  let ?ds = "subset_node_keys G (ds G) k"
  let ?mst = "mst_node_keys (mst G) k"
  show "isl (padding_loop ?vc ?top k) \<longleftrightarrow> length G < k"
    using assms
    by (intro padding_fails_iff distinct_subset_node_keys set_subset_node_keys_nodes
        length_subset_node_keys_le)
  show "isl (padding_loop ?ds ?top k) \<longleftrightarrow> length G < k"
    using assms
    by (intro padding_fails_iff distinct_subset_node_keys set_subset_node_keys_nodes
        length_subset_node_keys_le)
  show "isl (padding_loop ?mst ?top k) \<longleftrightarrow> length G < k"
    if "distinct (nodes (mst G)) \<and> set (nodes (mst G)) \<subseteq> set (nodes G)"
    using assms that set_mst_node_keys [of "mst G" k]
    by (intro padding_fails_iff distinct_mst_node_keys length_mst_node_keys_le) auto
  show "\<exists>r. padding_loop ?vc ?top k = Inr r \<and> length r = k" if "k \<le> length G"
    using padding_enough [OF assms that length_subset_node_keys_le]
      length_completed_round [OF assms that length_subset_node_keys_le] by blast
  show "\<exists>r. padding_loop ?ds ?top k = Inr r \<and> length r = k" if "k \<le> length G"
    using padding_enough [OF assms that length_subset_node_keys_le]
      length_completed_round [OF assms that length_subset_node_keys_le] by blast
  show "\<exists>r. padding_loop ?mst ?top k = Inr r \<and> length r = k" if "k \<le> length G"
    using padding_enough [OF assms that length_mst_node_keys_le]
      length_completed_round [OF assms that length_mst_node_keys_le] by blast
  show "length ?top = min k (length G)"
    by (rule length_top_degrees)
  show "vertex_cover_strategy vc G it k = Inl IndexError \<longleftrightarrow> length G < k"
    unfolding vertex_cover_strategy_def Let_def
    using assms
    by (intro pad_and_repeat_fails_iff distinct_subset_node_keys set_subset_node_keys_nodes
        length_subset_node_keys_le)
  show "dominating_set_strategy ds G it k = Inl IndexError \<longleftrightarrow> length G < k"
    if "\<not> set (nodes G) \<subseteq> ds G"
  proof -
    have "pad_and_repeat G ?ds it k = Inl IndexError \<longleftrightarrow> length G < k"
      using assms
      by (intro pad_and_repeat_fails_iff distinct_subset_node_keys set_subset_node_keys_nodes
          length_subset_node_keys_le)
    with that show ?thesis by (simp add: dominating_set_strategy_eq)
  qed
  show "mst_strategy mst G it k = Inl IndexError \<longleftrightarrow> length G < k"
    if "distinct (nodes (mst G)) \<and> set (nodes (mst G)) \<subseteq> set (nodes G)"
    unfolding mst_strategy_def Let_def
    using assms that set_mst_node_keys [of "mst G" k]
    by (intro pad_and_repeat_fails_iff distinct_mst_node_keys length_mst_node_keys_le) auto
qed

theorem completion_fails_iff_short_graph_witness:
  "is_graph path3 \<and>
   length path3 < 4 \<and> vertex_cover_strategy (\<lambda>G. {1}) path3 2 4 = Inl IndexError \<and>
   padding_loop (subset_node_keys path3 {1} 4) (degree_centrality_strategy path3 1 4) 4
     = Inl IndexError \<and>
   \<not> length path3 < 3 \<and> vertex_cover_strategy (\<lambda>G. {1}) path3 2 3 \<noteq> Inl IndexError \<and>
   length (degree_centrality_strategy diamond 1 2) = 2 \<and>
   isl (padding_loop (subset_node_keys diamond {3} 2) (degree_centrality_strategy diamond 1 2) 2)
     = False"
proof -
  have g: "is_graph path3" by code_simp
  have g': "is_graph diamond" by code_simp
  have n: "length path3 = 3" "length diamond = 4" by code_simp+
  have p: "padding_loop (subset_node_keys path3 {1} 4) (degree_centrality_strategy path3 1 4) 4
     = Inl IndexError" by code_simp
  show ?thesis
    using completion_fails_iff_short_graph [OF g, of "\<lambda>G. {1}" 4 "\<lambda>G. {1}" "\<lambda>G. G" 2]
      completion_fails_iff_short_graph [OF g, of "\<lambda>G. {1}" 3 "\<lambda>G. {1}" "\<lambda>G. G" 2]
      completion_fails_iff_short_graph [OF g', of "\<lambda>G. {3}" 2 "\<lambda>G. {3}" "\<lambda>G. G" 2]
      g n p
    by simp
qed

text \<open>
  C7. On a graph with \<open>n\<close> nodes and \<open>num_seeds \<le> n\<close>, the random strategy returns,
  and whatever it returns is a schedule of \<open>num_seeds * num_iterations\<close> entries whose
  every round has \<open>num_seeds\<close> distinct entries, each an index below \<open>n\<close>. Each
  round is a sample of its own: any sequence of samples can be the rounds of a schedule,
  so two rounds may share entries, and the same sample may come every round.
\<close>

theorem random_rounds_distinct_indices:
  assumes "k \<le> length G"
  shows
  "(random_strategy G it k r \<longrightarrow>
      (\<exists>out. r = Inr out \<and> length out = k * it \<and>
         list_all (\<lambda>i. length (round_of k i out) = k \<and> distinct (round_of k i out) \<and>
                       list_all (\<lambda>x. x < length G) (round_of k i out)) [0..<it])) \<and>
   (\<exists>out. random_strategy G it k (Inr out)) \<and>
   (list_all (\<lambda>s. np_random_choice (length G) k (Inr s)) ss \<longrightarrow>
      random_strategy G (length ss) k (Inr (concat ss))) \<and>
   (np_random_choice (length G) k (Inr s) \<longrightarrow> random_strategy G it k (Inr (repeat s it)))"
proof (intro conjI impI)
  show "\<exists>out. r = Inr out \<and> length out = k * it \<and>
         list_all (\<lambda>i. length (round_of k i out) = k \<and> distinct (round_of k i out) \<and>
                       list_all (\<lambda>x. x < length G) (round_of k i out)) [0..<it]"
    if "random_strategy G it k r"
  proof (cases r)
    case (Inl e)
    with random_loop_sound [of G k it "[]" r] that assms show ?thesis
      by (simp add: random_strategy_def)
  next
    case (Inr out)
    with random_loop_sound [of G k it "[]" r] that obtain ss where ss:
      "length ss = it" "list_all (\<lambda>s. np_random_choice (length G) k (Inr s)) ss"
      "out = concat ss" by (auto simp: random_strategy_def)
    then have len: "list_all (\<lambda>s. length s = k) ss"
      by (simp add: list_all_iff np_random_choice_def)
    have "length (round_of k i out) = k \<and> distinct (round_of k i out) \<and>
        list_all (\<lambda>x. x < length G) (round_of k i out)" if "i < it" for i
    proof -
      have "round_of k i out = ss ! i"
        using len that ss by (simp add: round_of_concat)
      moreover have "np_random_choice (length G) k (Inr (ss ! i))"
        using ss that by (simp add: list_all_length)
      ultimately show ?thesis by (simp add: np_random_choice_def)
    qed
    then have "list_all (\<lambda>i. length (round_of k i out) = k \<and> distinct (round_of k i out) \<and>
                       list_all (\<lambda>x. x < length G) (round_of k i out)) [0..<it]"
      by (simp add: list_all_iff)
    moreover have "length out = k * it"
      using ss len by (simp add: length_concat_rounds)
    ultimately show ?thesis using Inr by simp
  qed
  show "random_strategy G (length ss) k (Inr (concat ss))"
    if "list_all (\<lambda>s. np_random_choice (length G) k (Inr s)) ss"
    using random_loop_complete [OF that, of "[]"] by (simp add: random_strategy_def)
  show same: "random_strategy G it k (Inr (repeat s it))"
    if "np_random_choice (length G) k (Inr s)" for s
  proof -
    from that have "list_all (\<lambda>s. np_random_choice (length G) k (Inr s)) (replicate it s)"
      by (simp add: list_all_iff)
    from random_loop_complete [OF this, of "[]"] show ?thesis
      by (simp add: random_strategy_def repeat_def)
  qed
  from same [OF sample_exists [OF assms]]
  show "\<exists>out. random_strategy G it k (Inr out)" by blast
qed

theorem random_rounds_distinct_indices_witness:
  "2 \<le> length diamond \<and>
   random_strategy diamond 2 2 (Inr [0, 1, 1, 2]) \<and>
   round_of 2 0 [0, 1, 1, 2 :: nat] = [0, 1] \<and> round_of 2 1 [0, 1, 1, 2 :: nat] = [1, 2] \<and>
   list_all (\<lambda>i. length (round_of 2 i [0, 1, 1, 2 :: nat]) = 2 \<and>
                 distinct (round_of 2 i [0, 1, 1, 2 :: nat]) \<and>
                 list_all (\<lambda>x. x < length diamond) (round_of 2 i [0, 1, 1, 2 :: nat])) [0..<2] \<and>
   random_strategy diamond 3 2 (Inr [3, 0, 3, 0, 3, 0])"
proof -
  have n: "2 \<le> length diamond" by code_simp
  have s: "list_all (\<lambda>s. np_random_choice (length diamond) 2 (Inr s)) [[0, 1], [1, 2]]"
    by code_simp
  have t: "np_random_choice (length diamond) 2 (Inr [3, 0])" by code_simp
  have r: "round_of 2 0 [0, 1, 1, 2 :: nat] = [0, 1]" "round_of 2 1 [0, 1, 1, 2 :: nat] = [1, 2]"
    by code_simp+
  note w = random_rounds_distinct_indices [OF n, of 2 "Inr [0, 1, 1, 2]" "[[0, 1], [1, 2]]" "[3, 0]"]
  have a: "random_strategy diamond 2 2 (Inr [0, 1, 1, 2])"
    using w s by (simp add: numeral_2_eq_2)
  have b: "list_all (\<lambda>i. length (round_of 2 i [0, 1, 1, 2 :: nat]) = 2 \<and>
                 distinct (round_of 2 i [0, 1, 1, 2 :: nat]) \<and>
                 list_all (\<lambda>x. x < length diamond) (round_of 2 i [0, 1, 1, 2 :: nat])) [0..<2]"
    using w a by simp
  have c: "random_strategy diamond 3 2 (Inr [3, 0, 3, 0, 3, 0])"
    using random_rounds_distinct_indices [OF n, of 3 "Inr []" "[]" "[3, 0]"] t
    by (simp add: repeat_def numeral_3_eq_3)
  show ?thesis using n a b c r by simp
qed

text \<open>
  C1, as amended. On a graph with at least \<open>num_seeds\<close> nodes the schedule has exactly
  \<open>num_seeds * num_iterations\<close> entries: for the degree strategy; for the four other
  ranking strategies when the library's score routine returned one score per node; for the
  MST and the vertex-cover strategy; for the dominating-set strategy when the dominating
  set leaves out at least one node; and for every result of the random strategy, which
  returns.
\<close>

theorem schedule_length:
  assumes "is_graph G" and "k \<le> length G"
  shows
  "length (degree_centrality_strategy G it k) = k * it \<and>
   (score_map G (cl G) \<longrightarrow> length (clustering_coefficient_strategy cl G it k) = k * it) \<and>
   (score_map G (ev G) \<longrightarrow> length (eigenvector_centrality_strategy ev G it k) = k * it) \<and>
   (score_map G (kz G) \<longrightarrow> length (katz_centrality_strategy kz G it k) = k * it) \<and>
   (score_map G (bt G) \<longrightarrow> length (betweenness_centrality_strategy bt G it k) = k * it) \<and>
   (\<exists>s. mst_strategy mst G it k = Inr s \<and> length s = k * it) \<and>
   (\<exists>s. vertex_cover_strategy vc G it k = Inr s \<and> length s = k * it) \<and>
   (\<not> set (nodes G) \<subseteq> ds G \<longrightarrow>
      (\<exists>s. dominating_set_strategy ds G it k = Inr s \<and> length s = k * it)) \<and>
   (\<exists>s. random_strategy G it k (Inr s)) \<and>
   (\<forall>r. random_strategy G it k r \<longrightarrow> (\<exists>s. r = Inr s \<and> length s = k * it))"
proof (intro conjI impI allI)
  show "length (degree_centrality_strategy G it k) = k * it"
    unfolding degree_centrality_strategy_def Let_def length_ranked
    using assms by (simp add: length_degree_centrality)
  show "length (clustering_coefficient_strategy cl G it k) = k * it" if "score_map G (cl G)"
    unfolding clustering_coefficient_strategy_def Let_def length_ranked
    using assms length_score_map [OF assms(1) that] by simp
  show "length (eigenvector_centrality_strategy ev G it k) = k * it" if "score_map G (ev G)"
    unfolding eigenvector_centrality_strategy_def Let_def length_ranked
    using assms length_score_map [OF assms(1) that] by simp
  show "length (katz_centrality_strategy kz G it k) = k * it" if "score_map G (kz G)"
    unfolding katz_centrality_strategy_def Let_def length_ranked
    using assms length_score_map [OF assms(1) that] by simp
  show "length (betweenness_centrality_strategy bt G it k) = k * it" if "score_map G (bt G)"
    unfolding betweenness_centrality_strategy_def Let_def length_ranked
    using assms length_score_map [OF assms(1) that] by simp
  have padded: "\<exists>s. pad_and_repeat G ks it k = Inr s \<and> length s = k * it"
    if "length ks \<le> k" for ks
    using pad_and_repeat_enough [OF assms that] length_completed_round [OF assms that]
    by (simp add: length_repeat mult.commute)
  show "\<exists>s. mst_strategy mst G it k = Inr s \<and> length s = k * it"
    unfolding mst_strategy_def Let_def by (intro padded length_mst_node_keys_le)
  show "\<exists>s. vertex_cover_strategy vc G it k = Inr s \<and> length s = k * it"
    unfolding vertex_cover_strategy_def Let_def by (intro padded length_subset_node_keys_le)
  show "\<exists>s. dominating_set_strategy ds G it k = Inr s \<and> length s = k * it"
    if "\<not> set (nodes G) \<subseteq> ds G"
    using that padded [OF length_subset_node_keys_le]
    by (simp add: dominating_set_strategy_eq)
  have "random_strategy G it k (Inr (repeat [0..<k] it))"
    using random_loop_complete [of G k "replicate it [0..<k]" "[]"] sample_exists [OF assms(2)]
    by (simp add: random_strategy_def repeat_def list_all_iff)
  then show "\<exists>s. random_strategy G it k (Inr s)" by blast
  show "\<exists>s. r = Inr s \<and> length s = k * it" if "random_strategy G it k r" for r
  proof (cases r)
    case (Inl e)
    with random_loop_sound [of G k it "[]" r] that assms show ?thesis
      by (simp add: random_strategy_def)
  next
    case (Inr out)
    with random_loop_sound [of G k it "[]" r] that obtain ss where ss:
      "length ss = it" "list_all (\<lambda>s. np_random_choice (length G) k (Inr s)) ss"
      "out = concat ss" by (auto simp: random_strategy_def)
    then have "list_all (\<lambda>s. length s = k) ss"
      by (simp add: list_all_iff np_random_choice_def)
    with ss Inr show ?thesis by (simp add: length_concat_rounds)
  qed
qed

theorem schedule_length_witness:
  "is_graph path3 \<and> 2 \<le> length path3 \<and>
   length (degree_centrality_strategy path3 50 2) = 100 \<and>
   length (betweenness_centrality_strategy degree_centrality path3 50 2) = 100 \<and>
   (\<exists>s. mst_strategy kruskal_spanning_tree path3 50 2 = Inr s \<and> length s = 100) \<and>
   (\<exists>s. vertex_cover_strategy (\<lambda>G. {0, 1}) path3 50 2 = Inr s \<and> length s = 100) \<and>
   (\<exists>s. dominating_set_strategy (\<lambda>G. {1}) path3 50 2 = Inr s \<and> length s = 100) \<and>
   (\<exists>s. random_strategy path3 50 2 (Inr s))"
proof -
  have g: "is_graph path3" by code_simp
  have n: "2 \<le> length path3" by code_simp
  have d: "\<not> set (nodes path3) \<subseteq> {1}" by code_simp
  note w = schedule_length [OF g n, of 50 degree_centrality degree_centrality degree_centrality
      degree_centrality kruskal_spanning_tree "\<lambda>G. {0, 1}" "\<lambda>G. {1}"]
  show ?thesis
    using w g n d score_map_degree_centrality [OF g] by simp
qed

text \<open>
  C1 as stated fails for the dominating-set strategy: on the graph of two nodes and no edge,
  whose only dominating set is both nodes, with \<open>num_seeds = 1\<close> the strategy ends in
  its assertion and returns no schedule.
\<close>

theorem schedule_length_counterexample:
  "is_graph edgeless2 \<and> 1 \<le> length edgeless2 \<and> is_dominating_set edgeless2 {0, 1} \<and>
   dominating_set_strategy (\<lambda>G. {0, 1}) edgeless2 50 1 = Inl AssertionError"
  by code_simp

text \<open>
  C2, as amended. No ranking strategy checks the size of the graph. On a graph with
  \<open>n\<close> nodes, fewer than \<open>num_seeds\<close>, the degree strategy returns all the nodes
  of the graph in descending degree-centrality order, repeated \<open>num_iterations\<close>
  times: a schedule of \<open>n * num_iterations\<close> entries, with no padding. The clustering,
  eigenvector, Katz and betweenness strategies return the same way, all the nodes in
  descending score order and repeated, whenever the library's score routine returned one
  score per node; nothing is said of a call in which the library routine itself raises.
\<close>

theorem ranker_short_graph:
  assumes "is_graph G" and "length G < k"
  shows
  "degree_centrality_strategy G it k = repeat (fallback_order G) it \<and>
   length (degree_centrality_strategy G it k) = length G * it \<and>
   (score_map G (cl G) \<longrightarrow>
      clustering_coefficient_strategy cl G it k = repeat (map fst (sorted_reverse (cl G))) it \<and>
      length (clustering_coefficient_strategy cl G it k) = length G * it) \<and>
   (score_map G (ev G) \<longrightarrow>
      eigenvector_centrality_strategy ev G it k = repeat (map fst (sorted_reverse (ev G))) it \<and>
      length (eigenvector_centrality_strategy ev G it k) = length G * it) \<and>
   (score_map G (kz G) \<longrightarrow>
      katz_centrality_strategy kz G it k = repeat (map fst (sorted_reverse (kz G))) it \<and>
      length (katz_centrality_strategy kz G it k) = length G * it) \<and>
   (score_map G (bt G) \<longrightarrow>
      betweenness_centrality_strategy bt G it k = repeat (map fst (sorted_reverse (bt G))) it \<and>
      length (betweenness_centrality_strategy bt G it k) = length G * it)"
proof -
  note all = nlargest_short_graph [OF assms(1) _ assms(2)]
  note len = length_all_ranked [OF assms(1)]
  have deg: "score_map G (degree_centrality G)"
    using assms(1) by (rule score_map_degree_centrality)
  show ?thesis
    unfolding degree_centrality_strategy_def clustering_coefficient_strategy_def
      eigenvector_centrality_strategy_def katz_centrality_strategy_def
      betweenness_centrality_strategy_def Let_def
    using all [OF deg] len [OF deg] by (simp add: fallback_order_def all len)
qed

theorem ranker_short_graph_witness:
  "is_graph path3 \<and> length path3 < 5 \<and>
   fallback_order path3 = [1, 0, 2] \<and>
   degree_centrality_strategy path3 2 5 = repeat [1, 0, 2] 2 \<and>
   length (degree_centrality_strategy path3 2 5) = 6 \<and>
   length (clustering_coefficient_strategy degree_centrality path3 2 5) = 6"
proof -
  have g: "is_graph path3" by code_simp
  have n: "length path3 < 5" by code_simp
  have f: "fallback_order path3 = [1, 0, 2]" by code_simp
  have l: "length path3 = 3" by code_simp
  note w = ranker_short_graph [OF g n, of 2 degree_centrality degree_centrality
      degree_centrality degree_centrality]
  have a: "degree_centrality_strategy path3 2 5 = repeat (fallback_order path3) 2"
    using w by blast
  have b: "length (degree_centrality_strategy path3 2 5) = length path3 * 2"
    using w by blast
  have c: "length (clustering_coefficient_strategy degree_centrality path3 2 5) = length path3 * 2"
    using w score_map_degree_centrality [OF g] by blast
  show ?thesis
    using g n f l a b c by simp
qed

text \<open>
  C2 as stated fails: on the path of three nodes with \<open>num_seeds = 5\<close> the degree
  strategy returns the three nodes twice for two iterations.
\<close>

theorem ranker_short_graph_counterexample:
  "length path3 < 5 \<and> degree_centrality_strategy path3 2 5 = [1, 0, 2, 1, 0, 2]"
  by code_simp

text \<open>
  C5, as amended. The vertex-cover and the dominating-set strategy rank by degree
  centrality in the induced subgraph of the original graph on the extracted set (the graph
  the code is left with after removing the other nodes is that subgraph), and take the top
  \<open>min(num_seeds, |set|)\<close>. The MST strategy ranks by degree centrality in the graph
  the library's spanning-tree routine returned, so by the tree's own edges, and takes the
  top \<open>min(num_seeds, number of tree nodes)\<close>.
\<close>

theorem extractor_ranking:
  assumes "is_graph G"
  shows
  "(vc G \<subseteq> set (nodes G) \<longrightarrow>
      subset_node_keys G (vc G) k =
        map fst (nlargest (min k (card (vc G))) (degree_centrality (induced_subgraph G (vc G)))) \<and>
      length (subset_node_keys G (vc G) k) = min k (card (vc G)) \<and>
      vertex_cover_strategy vc G it k =
        pad_and_repeat G (map fst (nlargest (min k (card (vc G)))
          (degree_centrality (induced_subgraph G (vc G))))) it k) \<and>
   (ds G \<subseteq> set (nodes G) \<and> \<not> set (nodes G) \<subseteq> ds G \<longrightarrow>
      length (subset_node_keys G (ds G) k) = min k (card (ds G)) \<and>
      dominating_set_strategy ds G it k =
        pad_and_repeat G (map fst (nlargest (min k (card (ds G)))
          (degree_centrality (induced_subgraph G (ds G))))) it k) \<and>
   length (mst_node_keys (mst G) k) = min k (length (nodes (mst G))) \<and>
   mst_strategy mst G it k =
     pad_and_repeat G (map fst (nlargest (min k (length (nodes (mst G))))
       (degree_centrality (mst G)))) it k"
proof (intro conjI impI)
  have keys: "subset_node_keys G S k =
      map fst (nlargest (min k (card S)) (degree_centrality (induced_subgraph G S)))" for S
    unfolding subset_node_keys_eq remove_is_induced [OF assms] ..
  show "subset_node_keys G (vc G) k =
        map fst (nlargest (min k (card (vc G))) (degree_centrality (induced_subgraph G (vc G))))"
    by (rule keys)
  show "length (subset_node_keys G (vc G) k) = min k (card (vc G))" if "vc G \<subseteq> set (nodes G)"
    using assms that by (rule length_subset_node_keys)
  show "vertex_cover_strategy vc G it k =
        pad_and_repeat G (map fst (nlargest (min k (card (vc G)))
          (degree_centrality (induced_subgraph G (vc G))))) it k"
    unfolding vertex_cover_strategy_def Let_def keys ..
  show "length (subset_node_keys G (ds G) k) = min k (card (ds G))"
    if "ds G \<subseteq> set (nodes G) \<and> \<not> set (nodes G) \<subseteq> ds G"
    using assms that by (intro length_subset_node_keys) auto
  show "dominating_set_strategy ds G it k =
        pad_and_repeat G (map fst (nlargest (min k (card (ds G)))
          (degree_centrality (induced_subgraph G (ds G))))) it k"
    if "ds G \<subseteq> set (nodes G) \<and> \<not> set (nodes G) \<subseteq> ds G"
    using that by (simp add: dominating_set_strategy_eq keys)
  show "length (mst_node_keys (mst G) k) = min k (length (nodes (mst G)))"
    by (simp add: length_mst_node_keys nodes_def)
  show "mst_strategy mst G it k =
     pad_and_repeat G (map fst (nlargest (min k (length (nodes (mst G))))
       (degree_centrality (mst G)))) it k"
    unfolding mst_strategy_def Let_def mst_node_keys_eq by (simp add: nodes_def)
qed

theorem extractor_ranking_witness:
  "is_graph diamond \<and>
   induced_subgraph diamond {0, 1, 3} = [(0, [1]), (1, [0, 3]), (3, [1])] \<and>
   subset_node_keys diamond {0, 1, 3} 2 = [1, 0] \<and>
   vertex_cover_strategy (\<lambda>G. {0, 1, 3}) diamond 1 2 = pad_and_repeat diamond [1, 0] 1 2 \<and>
   dominating_set_strategy (\<lambda>G. {0, 1, 3}) diamond 1 2 = pad_and_repeat diamond [1, 0] 1 2 \<and>
   kruskal_spanning_tree diamond = [(0, [1, 2]), (1, [0, 3]), (2, [0]), (3, [1])] \<and>
   mst_strategy kruskal_spanning_tree diamond 1 2 = pad_and_repeat diamond [0, 1] 1 2"
proof -
  have g: "is_graph diamond" by code_simp
  have i: "induced_subgraph diamond {0, 1, 3} = [(0, [1]), (1, [0, 3]), (3, [1])]" by code_simp
  have s: "subset_node_keys diamond {0, 1, 3} 2 = [1, 0]" by code_simp
  have c: "{0, 1, 3} \<subseteq> set (nodes diamond)" "\<not> set (nodes diamond) \<subseteq> {0, 1, 3}"
    "card {0, 1, 3 :: nat} = 3" by code_simp+
  have t: "kruskal_spanning_tree diamond = [(0, [1, 2]), (1, [0, 3]), (2, [0]), (3, [1])]"
    by code_simp
  have m: "map fst (nlargest (min 2 (length (nodes (kruskal_spanning_tree diamond))))
       (degree_centrality (kruskal_spanning_tree diamond))) = [0, 1]" by code_simp
  note w = extractor_ranking [OF g, of "\<lambda>G. {0, 1, 3}" 2 1 "\<lambda>G. {0, 1, 3}" kruskal_spanning_tree]
  have v: "vertex_cover_strategy (\<lambda>G. {0, 1, 3}) diamond 1 2 = pad_and_repeat diamond [1, 0] 1 2"
    using w c s by simp
  have d: "dominating_set_strategy (\<lambda>G. {0, 1, 3}) diamond 1 2 = pad_and_repeat diamond [1, 0] 1 2"
    using w c s by simp
  have k: "mst_strategy kruskal_spanning_tree diamond 1 2 = pad_and_repeat diamond [0, 1] 1 2"
    using w unfolding m by simp
  show ?thesis using g i s v d t k by simp
qed

text \<open>
  C5 as stated fails for the MST strategy. In \<open>kite\<close> the spanning tree of Kruskal's
  algorithm has the edges 0-1, 0-2, 0-3, 1-4 and all five nodes. The strategy's first
  candidate is node 0, the only node of degree 3 in the tree; the induced subgraph on the
  tree's nodes is the whole graph, whose top node is node 1, the only node of degree 4.
\<close>

theorem extractor_ranking_counterexample:
  "is_graph kite \<and>
   kruskal_spanning_tree kite = [(0, [1, 2, 3]), (1, [0, 4]), (2, [0]), (3, [0]), (4, [1])] \<and>
   mst_node_keys (kruskal_spanning_tree kite) 1 = [0] \<and>
   mst_strategy kruskal_spanning_tree kite 1 1 = Inr [0] \<and>
   map fst (nlargest (min 1 (length (nodes (kruskal_spanning_tree kite))))
     (degree_centrality (induced_subgraph kite (set (nodes (kruskal_spanning_tree kite))))))
     = [1]"
  by code_simp

end
